theory Spec2Isabelle
  imports Main "HOL-Library.Word"
begin

section \<open>The metrics registry of mertics.cc\<close>

text \<open>
  The registry is a graph of nodes. A parent holds \<open>std::weak_ptr<Node>\<close> links to its
  children, so an object is identified by the control block a weak pointer refers to: an
  address that is never reused. The store maps an address to the object while a strong
  owner keeps it alive, and to \<open>None\<close> once the last strong owner has released it, which
  is when \<open>weak_ptr::lock\<close> starts to fail.
\<close>

type_synonym addr = nat

subsection \<open>Field\<close>

text \<open>
  \<open>Field<CONTENT>\<close> for the two instantiations of the driver: \<open>Field<std::string>\<close> and
  \<open>Field<size_t>\<close> (64 bits wide). A commit replaces a field by a field of the same
  instantiation; C++ typing sees to that, the model does not track it.
\<close>

datatype Field = FieldString string | FieldSize "64 word"

text \<open>\<open>operator<<\<close> of a \<open>size_t\<close> on a stream in its initial state: decimal digits.\<close>

definition digit :: "nat \<Rightarrow> char" where
  "digit n = ''0123456789'' ! n"

fun decimal :: "nat \<Rightarrow> string" where
  "decimal n = (if n < 10 then [digit n] else decimal (n div 10) @ [digit (n mod 10)])"

declare decimal.simps [simp del]

fun content_text :: "Field \<Rightarrow> string" where
  "content_text (FieldString s) = s"
| "content_text (FieldSize n) = decimal (unat n)"

subsection \<open>Nodes and the world\<close>

text \<open>
  The dynamic class of an object. \<open>Node\<close> and \<open>Root\<close> have no field; \<open>AtomicStorage\<close>
  keeps the reference \<open>mutex_\<close>, here the address of the \<open>Root\<close> whose mutex it is.
  The field \<open>node_children\<close> is the member \<open>children_\<close>.
\<close>

datatype node_class =
    Node
  | Root
  | Storage Field
  | AtomicStorage Field addr

record node =
  "class" :: node_class
  node_children :: "addr list"

text \<open>
  The world: the live objects, the state of \<open>Root::mutex_\<close> of every root (\<open>True\<close> when
  held), and the characters written to \<open>std::cout\<close> so far.
\<close>

record world =
  nodes :: "addr \<rightharpoonup> node"
  mutexes :: "addr \<Rightarrow> bool"
  cout :: string

text \<open>\<open>Visitor::output\<close> is a reference to \<open>std::cout\<close>; the writes go to the world.\<close>

record Visitor =
  depth :: "64 word"

datatype error =
    OutOfFuel \<comment> \<open>the traversal does not return: a cycle of live references\<close>
  | Deadlock \<comment> \<open>\<open>lock\<close> of a mutex that is already held\<close>
  | InvalidObject \<comment> \<open>a member function called on an expired object or on another class\<close>
  | AssertionFailed \<comment> \<open>\<open>assert\<close> aborts the process\<close>

subsection \<open>Visitor\<close>

definition emit :: "string \<Rightarrow> world \<Rightarrow> world" where
  "emit s w = w\<lparr>cout := cout w @ s\<rparr>"

definition endl :: string where
  "endl = [CHR 0x0A]"

definition header :: "world \<Rightarrow> world" where
  "header w = emit endl (emit '' -!- R E P O R T -!-'' w)"

definition tail :: "world \<Rightarrow> world" where
  "tail w = emit endl (emit endl (emit endl (emit '' -@- _ _ _ _ _ _ -@-'' w)))"

text \<open>The loop of \<open>Visitor::prefix\<close>: \<open>for (size_t counter = 1; counter < depth; ++counter)\<close>.\<close>

function prefix_loop :: "64 word \<Rightarrow> 64 word \<Rightarrow> world \<Rightarrow> world" where
  "prefix_loop counter d w =
     (if counter < d then prefix_loop (counter + 1) d (emit ''  '' w) else w)"
  by pat_completeness auto
termination
proof (relation "measure (\<lambda>(counter, d, w). unat d - unat counter)")
  show "wf (measure (\<lambda>(counter, d, w). unat d - unat counter))"
    by simp
next
  fix counter d :: "64 word" and w :: world
  assume less: "counter < d"
  have "counter + 1 \<noteq> 0"
  proof
    assume "counter + 1 = 0"
    then have "counter = - 1"
      by (simp add: eq_neg_iff_add_eq_0)
    with less show False
      by simp
  qed
  then have "unat (counter + 1) = Suc (unat counter)"
    by (simp add: unatSuc add.commute)
  moreover from less have "unat counter < unat d"
    by (simp add: word_less_nat_alt)
  ultimately show "((counter + 1, d, emit ''  '' w), (counter, d, w))
      \<in> measure (\<lambda>(counter, d, w). unat d - unat counter)"
    by simp
qed

declare prefix_loop.simps [simp del]

definition prefix :: "Visitor \<Rightarrow> world \<Rightarrow> world" where
  "prefix v w = emit '' - '' (prefix_loop 1 (depth v) w)"

definition suffix :: "world \<Rightarrow> world" where
  "suffix w = emit [CHR 0x0A] w"

text \<open>\<open>Field::visit\<close>: \<open>visitor.output << content\<close>.\<close>

definition Field_visit :: "Field \<Rightarrow> world \<Rightarrow> world" where
  "Field_visit f w = emit (content_text f) w"

subsection \<open>The mutex\<close>

definition lock :: "addr \<Rightarrow> world \<Rightarrow> error + world" where
  "lock m w = (if mutexes w m then Inl Deadlock else Inr (w\<lparr>mutexes := (mutexes w)(m := True)\<rparr>))"

definition unlock :: "addr \<Rightarrow> world \<Rightarrow> world" where
  "unlock m w = w\<lparr>mutexes := (mutexes w)(m := False)\<rparr>"

subsection \<open>Traversal\<close>

text \<open>
  The loop of \<open>Node::visit(visitor, children)\<close>. The parameter \<open>call\<close> is the virtual call
  \<open>pointer->visit(visitor)\<close>; a reference that does not lock is passed over.
\<close>

fun for_children ::
  "(addr \<Rightarrow> Visitor \<times> world \<Rightarrow> error + Visitor \<times> world) \<Rightarrow> addr list \<Rightarrow>
   Visitor \<times> world \<Rightarrow> error + Visitor \<times> world" where
  "for_children call [] s = Inr s"
| "for_children call (child # children) s =
     (case nodes (snd s) child of
        None \<Rightarrow> for_children call children s
      | Some pointer \<Rightarrow>
          (case call child s of
             Inl e \<Rightarrow> Inl e
           | Inr s' \<Rightarrow> for_children call children s'))"

text \<open>\<open>Node::visit(visitor, children)\<close>, the implementation of the base class.\<close>

definition Node_visit ::
  "(addr \<Rightarrow> Visitor \<times> world \<Rightarrow> error + Visitor \<times> world) \<Rightarrow> addr list \<Rightarrow>
   Visitor \<times> world \<Rightarrow> error + Visitor \<times> world" where
  "Node_visit call children s =
     (case for_children call children (fst s\<lparr>depth := depth (fst s) + 1\<rparr>, snd s) of
        Inl e \<Rightarrow> Inl e
      | Inr s' \<Rightarrow> Inr (fst s'\<lparr>depth := depth (fst s') - 1\<rparr>, snd s'))"

text \<open>\<open>Storage::visit(visitor, children)\<close>.\<close>

definition Storage_visit ::
  "(addr \<Rightarrow> Visitor \<times> world \<Rightarrow> error + Visitor \<times> world) \<Rightarrow> Field \<Rightarrow> addr list \<Rightarrow>
   Visitor \<times> world \<Rightarrow> error + Visitor \<times> world" where
  "Storage_visit call field children s =
     Node_visit call children (fst s, suffix (Field_visit field (prefix (fst s) (snd s))))"

text \<open>\<open>AtomicStorage::visit(visitor, children)\<close>: the field is written under the mutex.\<close>

definition AtomicStorage_visit ::
  "(addr \<Rightarrow> Visitor \<times> world \<Rightarrow> error + Visitor \<times> world) \<Rightarrow> Field \<Rightarrow> addr \<Rightarrow> addr list \<Rightarrow>
   Visitor \<times> world \<Rightarrow> error + Visitor \<times> world" where
  "AtomicStorage_visit call field mutex children s =
     (case lock mutex (prefix (fst s) (snd s)) of
        Inl e \<Rightarrow> Inl e
      | Inr w \<Rightarrow> Node_visit call children (fst s, suffix (unlock mutex (Field_visit field w))))"

text \<open>
  \<open>Node::visit(visitor)\<close>: the virtual call \<open>visit(visitor, children_)\<close> on the object at
  an address, by its dynamic class. \<open>Root\<close> does not override the two-argument \<open>visit\<close>.
  The first argument bounds the nesting of the calls; C++ has no such bound, and a
  traversal that exhausts every bound does not return.
\<close>

primrec visit :: "nat \<Rightarrow> addr \<Rightarrow> Visitor \<times> world \<Rightarrow> error + Visitor \<times> world" where
  "visit 0 this s = Inl OutOfFuel"
| "visit (Suc fuel) this s =
     (case nodes (snd s) this of
        None \<Rightarrow> Inl InvalidObject
      | Some object \<Rightarrow>
          (case class object of
             Node \<Rightarrow> Node_visit (visit fuel) (node_children object) s
           | Root \<Rightarrow> Node_visit (visit fuel) (node_children object) s
           | Storage field \<Rightarrow> Storage_visit (visit fuel) field (node_children object) s
           | AtomicStorage field mutex \<Rightarrow>
               AtomicStorage_visit (visit fuel) field mutex (node_children object) s))"

text \<open>
  \<open>Root::visit()\<close>: the constructor of the local \<open>Visitor\<close> writes the header, its
  destructor the tail once the traversal has returned.
\<close>

definition Root_visit :: "nat \<Rightarrow> addr \<Rightarrow> world \<Rightarrow> error + world" where
  "Root_visit fuel this w =
     (case nodes w this of
        None \<Rightarrow> Inl InvalidObject
      | Some object \<Rightarrow>
          (if class object \<noteq> Root then Inl InvalidObject
           else (case visit fuel this (\<lparr>depth = 0\<rparr>, header w) of
                   Inl e \<Rightarrow> Inl e
                 | Inr s \<Rightarrow> Inr (tail (snd s)))))"

subsection \<open>Building and changing the graph\<close>

text \<open>\<open>Node::append\<close>: \<open>children_.emplace_back(child)\<close>.\<close>

definition Node_append :: "addr \<Rightarrow> addr \<Rightarrow> world \<Rightarrow> error + world" where
  "Node_append this child w =
     (case nodes w this of
        None \<Rightarrow> Inl InvalidObject
      | Some object \<Rightarrow>
          Inr (w\<lparr>nodes := (nodes w)(this \<mapsto> object\<lparr>node_children := node_children object @ [child]\<rparr>)\<rparr>))"

text \<open>\<open>Storage::commit\<close>, without synchronisation.\<close>

definition Storage_commit :: "addr \<Rightarrow> Field \<Rightarrow> world \<Rightarrow> error + world" where
  "Storage_commit this newValue w =
     (case nodes w this of
        None \<Rightarrow> Inl InvalidObject
      | Some object \<Rightarrow>
          (case class object of
             Storage field \<Rightarrow>
               Inr (w\<lparr>nodes := (nodes w)(this \<mapsto> object\<lparr>class := Storage newValue\<rparr>)\<rparr>)
           | _ \<Rightarrow> Inl InvalidObject))"

text \<open>\<open>AtomicStorage::commit\<close>: the assignment under the mutex of the root.\<close>

definition AtomicStorage_commit :: "addr \<Rightarrow> Field \<Rightarrow> world \<Rightarrow> error + world" where
  "AtomicStorage_commit this newValue w =
     (case nodes w this of
        None \<Rightarrow> Inl InvalidObject
      | Some object \<Rightarrow>
          (case class object of
             AtomicStorage field mutex \<Rightarrow>
               (case lock mutex w of
                  Inl e \<Rightarrow> Inl e
                | Inr w' \<Rightarrow>
                    Inr (unlock mutex
                      (w'\<lparr>nodes := (nodes w')(this \<mapsto>
                          object\<lparr>class := AtomicStorage newValue mutex\<rparr>)\<rparr>)))
           | _ \<Rightarrow> Inl InvalidObject))"

text \<open>The last strong owner of an object lets go of it: the object is destroyed.\<close>

definition release :: "addr \<Rightarrow> world \<Rightarrow> world" where
  "release a w = w\<lparr>nodes := (nodes w)(a := None)\<rparr>"

text \<open>
  \<open>assert\<close> of \<open><cassert>\<close>: with \<open>NDEBUG\<close> defined the macro expands to nothing, otherwise
  a false condition aborts.
\<close>

definition c_assert :: "bool \<Rightarrow> bool \<Rightarrow> world \<Rightarrow> error + world" where
  "c_assert ndebug condition w = (if ndebug \<or> condition then Inr w else Inl AssertionFailed)"

text \<open>\<open>Node::trim\<close>: \<open>assert(!"unimplemented")\<close>; a string literal is a non-null pointer.\<close>

definition trim :: "bool \<Rightarrow> world \<Rightarrow> error + world" where
  "trim ndebug w = c_assert ndebug (\<not> True) w"

section \<open>What a report is expected to contain\<close>

text \<open>
  The description of a report says that a visit renders the nodes reachable from the root
  through live references, depth first, a node before its children, the children in the
  order of the child list, one line a node, indented by its depth. That is a tree: the
  unfolding of the graph of live references from the root. A node with several parents
  occurs once under each of them; a cycle of live references has no such tree.
\<close>

datatype tree = Tree (label: addr) (cls: node_class) (subtrees: "tree list")

text \<open>
  \<open>live_tree ns t\<close>: the tree \<open>t\<close> is the unfolding of the store \<open>ns\<close> from the address
  at its top: every node of \<open>t\<close> is a live object with its class, and its subtrees are
  those of the live entries of its child list, in the order of the list.
\<close>

fun live_tree :: "(addr \<rightharpoonup> node) \<Rightarrow> tree \<Rightarrow> bool" where
  "live_tree ns (Tree a k ts) =
     (case ns a of
        None \<Rightarrow> False
      | Some object \<Rightarrow>
          class object = k \<and>
          map label ts = filter (\<lambda>c. ns c \<noteq> None) (node_children object) \<and>
          (\<forall>t \<in> set ts. live_tree ns t))"

fun height :: "tree \<Rightarrow> nat" where
  "height (Tree a k ts) = Suc (foldr (\<lambda>t m. max (height t) m) ts 0)"

fun labels :: "tree \<Rightarrow> addr list" where
  "labels (Tree a k ts) = a # concat (map labels ts)"

text \<open>An address is reachable from another through live references.\<close>

inductive reach :: "(addr \<rightharpoonup> node) \<Rightarrow> addr \<Rightarrow> addr \<Rightarrow> bool"
  for ns :: "addr \<rightharpoonup> node" and r :: addr where
  start: "ns r \<noteq> None \<Longrightarrow> reach ns r r"
| child: "reach ns r a \<Longrightarrow> ns a = Some object \<Longrightarrow> c \<in> set (node_children object) \<Longrightarrow>
     ns c \<noteq> None \<Longrightarrow> reach ns r c"

code_pred reach .

text \<open>
  The line of a field at a depth: depth minus one indent units of two spaces, the marker,
  the content, a newline.
\<close>

definition indent :: "64 word \<Rightarrow> string" where
  "indent d = concat (replicate (unat d - 1) ''  '')"

definition report_line :: "64 word \<Rightarrow> Field \<Rightarrow> string" where
  "report_line d f = indent d @ '' - '' @ content_text f @ [CHR 0x0A]"

fun own_text :: "64 word \<Rightarrow> node_class \<Rightarrow> string" where
  "own_text d Node = []"
| "own_text d Root = []"
| "own_text d (Storage f) = report_line d f"
| "own_text d (AtomicStorage f m) = report_line d f"

text \<open>The text of a tree whose top is at depth \<open>d\<close>, in pre-order.\<close>

fun render :: "64 word \<Rightarrow> tree \<Rightarrow> string" where
  "render d (Tree a k ts) = own_text d k @ concat (map (render (d + 1)) ts)"

text \<open>
  The nodes of a tree that have a line, in pre-order: the address, the number of edges
  from the top of the whole tree (the top of this tree is \<open>e\<close> edges below it), the field.
\<close>

fun own_entry :: "addr \<Rightarrow> nat \<Rightarrow> node_class \<Rightarrow> (addr \<times> nat \<times> Field) list" where
  "own_entry a e Node = []"
| "own_entry a e Root = []"
| "own_entry a e (Storage f) = [(a, e, f)]"
| "own_entry a e (AtomicStorage f m) = [(a, e, f)]"

fun rendered :: "nat \<Rightarrow> tree \<Rightarrow> (addr \<times> nat \<times> Field) list" where
  "rendered e (Tree a k ts) = own_entry a e k @ concat (map (rendered (Suc e)) ts)"

text \<open>The tree without the subtrees at an address: what is left once the object there is gone.\<close>

fun prune :: "addr \<Rightarrow> tree \<Rightarrow> tree" where
  "prune c (Tree a k ts) = Tree a k (filter (\<lambda>t. label t \<noteq> c) (map (prune c) ts))"

text \<open>The tree after a commit to the storage node at an address.\<close>

fun set_field :: "Field \<Rightarrow> node_class \<Rightarrow> node_class" where
  "set_field newValue Node = Node"
| "set_field newValue Root = Root"
| "set_field newValue (Storage f) = Storage newValue"
| "set_field newValue (AtomicStorage f m) = AtomicStorage newValue m"

fun recommit :: "addr \<Rightarrow> Field \<Rightarrow> tree \<Rightarrow> tree" where
  "recommit a newValue (Tree b k ts) =
     Tree b (if b = a then set_field newValue k else k) (map (recommit a newValue) ts)"

text \<open>
  The tree after \<open>append\<close> of a child whose own tree is \<open>tc\<close> to the object at \<open>p\<close>:
  \<open>tc\<close> is the last subtree wherever \<open>p\<close> occurs.
\<close>

fun graft :: "addr \<Rightarrow> tree \<Rightarrow> tree \<Rightarrow> tree" where
  "graft p tc (Tree a k ts) = Tree a k (map (graft p tc) ts @ (if a = p then [tc] else []))"

text \<open>No mutex is held: no commit and no visit is under way.\<close>

definition unlocked :: "world \<Rightarrow> bool" where
  "unlocked w = (\<forall>m. \<not> mutexes w m)"

subsection \<open>The registry of the driver\<close>

text \<open>
  The objects of \<open>main\<close> at its first \<open>root.visit()\<close>: the root at address 0, \<open>metric\<close> at 1
  with \<open>"hello"\<close>, appended to the root, and \<open>metric2\<close> at 2 with \<open>2\<close>, appended to \<open>metric\<close>.
\<close>

definition driver :: world where
  "driver =
     \<lparr>nodes = [0 \<mapsto> \<lparr>class = Root, node_children = [1]\<rparr>,
               1 \<mapsto> \<lparr>class = AtomicStorage (FieldString ''hello'') 0, node_children = [2]\<rparr>,
               2 \<mapsto> \<lparr>class = AtomicStorage (FieldSize 2) 0, node_children = []\<rparr>],
      mutexes = (\<lambda>m. False),
      cout = []\<rparr>"

definition driver_tree :: tree where
  "driver_tree =
     Tree 0 Root
       [Tree 1 (AtomicStorage (FieldString ''hello'') 0)
          [Tree 2 (AtomicStorage (FieldSize 2) 0) []]]"

text \<open>
  A root at address 0 and an \<open>AtomicStorage<Field<std::string>>\<close> at 1, as \<open>Root::create\<close>
  leaves them: the field is the empty string, nothing is appended.
\<close>

definition created :: world where
  "created =
     \<lparr>nodes = [0 \<mapsto> \<lparr>class = Root, node_children = []\<rparr>,
               1 \<mapsto> \<lparr>class = AtomicStorage (FieldString []) 0, node_children = []\<rparr>],
      mutexes = (\<lambda>m. False),
      cout = []\<rparr>"

text \<open>The same two objects after \<open>commit("hello")\<close> and \<open>root.append(metric)\<close>.\<close>

definition hello_registry :: world where
  "hello_registry =
     \<lparr>nodes = [0 \<mapsto> \<lparr>class = Root, node_children = [1]\<rparr>,
               1 \<mapsto> \<lparr>class = AtomicStorage (FieldString ''hello'') 0, node_children = []\<rparr>],
      mutexes = (\<lambda>m. False),
      cout = []\<rparr>"

section \<open>The traversal, step by step\<close>

subsection \<open>Writing to the stream\<close>

lemma emit_emit: "emit s (emit t w) = emit (t @ s) w"
  by (simp add: emit_def)

lemma emit_Nil: "emit [] w = w"
  by (simp add: emit_def)

lemma nodes_emit: "nodes (emit s w) = nodes w"
  by (simp add: emit_def)

lemma mutexes_emit: "mutexes (emit s w) = mutexes w"
  by (simp add: emit_def)

lemma unlocked_emit: "unlocked (emit s w) = unlocked w"
  by (simp add: unlocked_def mutexes_emit)

lemma prefix_loop_emit:
  "prefix_loop counter d w = emit (concat (replicate (unat d - unat counter) ''  '')) w"
proof (induction counter d w rule: prefix_loop.induct)
  case (1 counter d w)
  show ?case
  proof (cases "counter < d")
    case True
    have "counter + 1 \<noteq> 0"
    proof
      assume "counter + 1 = 0"
      then have "counter = - 1"
        by (simp add: eq_neg_iff_add_eq_0)
      with True show False
        by simp
    qed
    then have suc: "unat (counter + 1) = Suc (unat counter)"
      by (simp add: unatSuc add.commute)
    from True have "unat counter < unat d"
      by (simp add: word_less_nat_alt)
    then have "unat d - unat counter = Suc (unat d - Suc (unat counter))"
      by simp
    then have "concat (replicate (unat d - unat counter) ''  '')
        = ''  '' @ concat (replicate (unat d - unat (counter + 1)) ''  '')"
      by (simp add: suc)
    moreover have "prefix_loop counter d w = prefix_loop (counter + 1) d (emit ''  '' w)"
      using True by (subst prefix_loop.simps) simp
    ultimately show ?thesis
      using "1.IH" [OF True] by (simp add: emit_emit)
  next
    case False
    then have "unat d - unat counter = 0"
      by (simp add: word_less_nat_alt)
    moreover have "prefix_loop counter d w = w"
      using False by (subst prefix_loop.simps) simp
    ultimately show ?thesis
      by (simp add: emit_Nil)
  qed
qed

lemma prefix_emit: "prefix v w = emit (indent (depth v) @ '' - '') w"
  by (simp add: prefix_def prefix_loop_emit indent_def emit_emit)

lemma unlock_lock:
  "\<not> mutexes w m \<Longrightarrow> lock m w = Inr w' \<Longrightarrow> unlock m (emit s w') = emit s w"
proof -
  assume free: "\<not> mutexes w m" and l: "lock m w = Inr w'"
  from free have "(mutexes w)(m := False) = mutexes w"
    by (simp add: fun_upd_idem)
  with free l show ?thesis
    by (auto simp: lock_def unlock_def emit_def)
qed


lemma Storage_visit_line:
  "Storage_visit call f children (v, w) = Node_visit call children (v, emit (report_line (depth v) f) w)"
  by (simp add: Storage_visit_def suffix_def Field_visit_def prefix_emit emit_emit report_line_def)

lemma AtomicStorage_visit_line:
  assumes "\<not> mutexes w m"
  shows "AtomicStorage_visit call f m children (v, w)
    = Node_visit call children (v, emit (report_line (depth v) f) w)"
proof -
  let ?p = "emit (indent (depth v) @ '' - '') w"
  from assms have free: "\<not> mutexes ?p m"
    by (simp add: mutexes_emit)
  then obtain w' where l: "lock m ?p = Inr w'"
    by (simp add: lock_def)
  have "unlock m (emit (content_text f) w') = emit (content_text f) ?p"
    by (rule unlock_lock [OF free l])
  then show ?thesis
    by (simp add: AtomicStorage_visit_def prefix_emit l suffix_def Field_visit_def emit_emit
        report_line_def)
qed

lemma AtomicStorage_visit_held:
  "mutexes w m \<Longrightarrow> AtomicStorage_visit call f m children (v, w) = Inl Deadlock"
  by (simp add: AtomicStorage_visit_def prefix_emit lock_def mutexes_emit)

lemma for_children_trees:
  assumes "\<forall>t \<in> set ts. \<forall>v w'. nodes w' = ns \<longrightarrow> unlocked w' \<longrightarrow>
             call (label t) (v, w') = Inr (v, emit (R (depth v) t) w')"
    and "map label ts = filter (\<lambda>c. ns c \<noteq> None) children"
    and "nodes w = ns" and "unlocked w"
  shows "for_children call children (v, w) = Inr (v, emit (concat (map (R (depth v)) ts)) w)"
  using assms
proof (induction children arbitrary: ts w)
  case Nil
  then show ?case
    by (simp add: emit_Nil)
next
  case (Cons child children)
  show ?case
  proof (cases "ns child")
    case None
    with Cons.prems have "map label ts = filter (\<lambda>c. ns c \<noteq> None) children"
      by simp
    from Cons.IH [OF Cons.prems(1) this Cons.prems(3) Cons.prems(4)] None Cons.prems(3)
    show ?thesis
      by simp
  next
    case (Some object)
    with Cons.prems(2) obtain t ts' where ts: "ts = t # ts'" and t: "label t = child"
      and ts': "map label ts' = filter (\<lambda>c. ns c \<noteq> None) children"
      by (cases ts) auto
    let ?w = "emit (R (depth v) t) w"
    from Cons.prems(1,3,4) ts t
    have call: "call child (v, w) = Inr (v, ?w)"
      by auto
    have rest: "for_children call children (v, ?w)
        = Inr (v, emit (concat (map (R (depth v)) ts')) ?w)"
    proof (rule Cons.IH [OF _ ts'])
      show "\<forall>t \<in> set ts'. \<forall>v w'. nodes w' = ns \<longrightarrow> unlocked w' \<longrightarrow>
             call (label t) (v, w') = Inr (v, emit (R (depth v) t) w')"
        using Cons.prems(1) ts by simp
      show "nodes ?w = ns"
        using Cons.prems(3) by (simp add: nodes_emit)
      show "unlocked ?w"
        using Cons.prems(4) by (simp add: unlocked_emit)
    qed
    from Some Cons.prems(3) call rest ts show ?thesis
      by (simp add: emit_emit)
  qed
qed

lemma height_subtree: "t \<in> set ts \<Longrightarrow> height t \<le> foldr (\<lambda>t m. max (height t) m) ts 0"
  by (induction ts) auto


lemma visit_live_tree:
  "live_tree (nodes w) t \<Longrightarrow> unlocked w \<Longrightarrow> height t \<le> fuel \<Longrightarrow>
   visit fuel (label t) (v, w) = Inr (v, emit (render (depth v) t) w)"
proof (induction t arbitrary: fuel v w)
  case (Tree a k ts)
  from Tree.prems(3) obtain n where fuel: "fuel = Suc n"
    and n: "foldr (\<lambda>t m. max (height t) m) ts 0 \<le> n"
    by (cases fuel) auto
  from Tree.prems(1) obtain object where object: "nodes w a = Some object"
    and k: "class object = k"
    and ts: "map label ts = filter (\<lambda>c. nodes w c \<noteq> None) (node_children object)"
    and live: "\<forall>t \<in> set ts. live_tree (nodes w) t"
    by (auto split: option.splits)
  have calls: "\<forall>t \<in> set ts. \<forall>v w'. nodes w' = nodes w \<longrightarrow> unlocked w' \<longrightarrow>
      visit n (label t) (v, w') = Inr (v, emit (render (depth v) t) w')"
  proof (intro ballI allI impI)
    fix t v w'
    assume t: "t \<in> set ts" and same: "nodes w' = nodes w" and free: "unlocked w'"
    from t live same have "live_tree (nodes w') t"
      by simp
    moreover from t n have "height t \<le> n"
      using height_subtree [of t ts] by simp
    ultimately show "visit n (label t) (v, w') = Inr (v, emit (render (depth v) t) w')"
      using Tree.IH [OF t] free by simp
  qed
  have base: "Node_visit (visit n) (node_children object) (v, w')
      = Inr (v, emit (concat (map (render (depth v + 1)) ts)) w')"
    if "nodes w' = nodes w" and "unlocked w'" for w'
  proof -
    have "for_children (visit n) (node_children object) (v\<lparr>depth := depth v + 1\<rparr>, w')
        = Inr (v\<lparr>depth := depth v + 1\<rparr>,
            emit (concat (map (render (depth (v\<lparr>depth := depth v + 1\<rparr>))) ts)) w')"
      using calls ts that by (intro for_children_trees [where ns = "nodes w"]) simp_all
    then show ?thesis
      by (simp add: Node_visit_def)
  qed
  show ?case
  proof (cases k)
    case Node
    with object k fuel base [of w] Tree.prems(2) show ?thesis
      by simp
  next
    case Root
    with object k fuel base [of w] Tree.prems(2) show ?thesis
      by simp
  next
    case (Storage f)
    let ?w = "emit (report_line (depth v) f) w"
    have "Node_visit (visit n) (node_children object) (v, ?w)
        = Inr (v, emit (concat (map (render (depth v + 1)) ts)) ?w)"
      using Tree.prems(2) by (intro base) (simp_all add: nodes_emit unlocked_emit)
    then show ?thesis
      using Storage object k fuel by (simp add: Storage_visit_line emit_emit)
  next
    case (AtomicStorage f m)
    let ?w = "emit (report_line (depth v) f) w"
    from Tree.prems(2) have free: "\<not> mutexes w m"
      by (simp add: unlocked_def)
    have "Node_visit (visit n) (node_children object) (v, ?w)
        = Inr (v, emit (concat (map (render (depth v + 1)) ts)) ?w)"
      using Tree.prems(2) by (intro base) (simp_all add: nodes_emit unlocked_emit)
    then show ?thesis
      using AtomicStorage object k fuel
      by (simp add: AtomicStorage_visit_line [OF free] emit_emit)
  qed
qed

subsection \<open>A visit appends to the stream and changes nothing else\<close>

lemma cout_emit: "(emit out w)\<lparr>cout := c\<rparr> = w\<lparr>cout := c\<rparr>"
  by (simp add: emit_def)

lemma emit_cout: "emit out (w\<lparr>cout := c\<rparr>) = w\<lparr>cout := c @ out\<rparr>"
  by (simp add: emit_def)

lemma for_children_frame:
  assumes call: "\<And>a v w v' w'. call a (v, w) = Inr (v', w') \<Longrightarrow>
      v' = v \<and> (\<exists>out. w' = emit out w \<and> (\<forall>c. call a (v, w\<lparr>cout := c\<rparr>) = Inr (v, w\<lparr>cout := c @ out\<rparr>)))"
  shows "for_children call children (v, w) = Inr (v', w') \<Longrightarrow>
      v' = v \<and> (\<exists>out. w' = emit out w \<and>
        (\<forall>c. for_children call children (v, w\<lparr>cout := c\<rparr>) = Inr (v, w\<lparr>cout := c @ out\<rparr>)))"
proof (induction children arbitrary: w)
  case Nil
  then have "w' = emit [] w" and "v' = v"
    by (simp_all add: emit_Nil)
  then show ?case
    by auto
next
  case (Cons child children)
  show ?case
  proof (cases "nodes w child")
    case None
    with Cons.prems have "for_children call children (v, w) = Inr (v', w')"
      by simp
    from Cons.IH [OF this] None show ?thesis
      by simp
  next
    case (Some pointer)
    with Cons.prems obtain v1 w1 where first: "call child (v, w) = Inr (v1, w1)"
      and rest: "for_children call children (v1, w1) = Inr (v', w')"
      by (auto split: sum.splits)
    from call [OF first] obtain out1 where v1: "v1 = v" and w1: "w1 = emit out1 w"
      and first': "\<And>c. call child (v, w\<lparr>cout := c\<rparr>) = Inr (v, w\<lparr>cout := c @ out1\<rparr>)"
      by auto
    from Cons.IH [of w1] rest v1 obtain out2 where v': "v' = v" and w': "w' = emit out2 w1"
      and rest': "\<And>c. for_children call children (v, w1\<lparr>cout := c\<rparr>) = Inr (v, w1\<lparr>cout := c @ out2\<rparr>)"
      by auto
    have "w' = emit (out1 @ out2) w"
      using w' w1 by (simp add: emit_emit)
    moreover have "for_children call (child # children) (v, w\<lparr>cout := c\<rparr>)
        = Inr (v, w\<lparr>cout := c @ out1 @ out2\<rparr>)" for c
      using Some first' [of c] rest' [of "c @ out1"] by (simp add: w1 cout_emit)
    ultimately show ?thesis
      using v' by auto
  qed
qed

lemma Node_visit_frame:
  assumes call: "\<And>a v w v' w'. call a (v, w) = Inr (v', w') \<Longrightarrow>
      v' = v \<and> (\<exists>out. w' = emit out w \<and> (\<forall>c. call a (v, w\<lparr>cout := c\<rparr>) = Inr (v, w\<lparr>cout := c @ out\<rparr>)))"
    and ret: "Node_visit call children (v, w) = Inr (v', w')"
  shows "v' = v \<and> (\<exists>out. w' = emit out w \<and>
      for_children call children (v\<lparr>depth := depth v + 1\<rparr>, w) = Inr (v\<lparr>depth := depth v + 1\<rparr>, w') \<and>
      (\<forall>c. Node_visit call children (v, w\<lparr>cout := c\<rparr>) = Inr (v, w\<lparr>cout := c @ out\<rparr>)))"
proof -
  let ?v = "v\<lparr>depth := depth v + 1\<rparr>"
  from ret obtain v1 where loop: "for_children call children (?v, w) = Inr (v1, w')"
    and v': "v' = v1\<lparr>depth := depth v1 - 1\<rparr>"
    by (auto simp: Node_visit_def split: sum.splits)
  from for_children_frame [of call, OF call loop] obtain out where v1: "v1 = ?v"
    and w': "w' = emit out w"
    and loop': "\<And>c. for_children call children (?v, w\<lparr>cout := c\<rparr>) = Inr (?v, w\<lparr>cout := c @ out\<rparr>)"
    by blast
  from v' v1 have "v' = v"
    by simp
  moreover have "Node_visit call children (v, w\<lparr>cout := c\<rparr>) = Inr (v, w\<lparr>cout := c @ out\<rparr>)" for c
    using loop' [of c] by (simp add: Node_visit_def)
  ultimately show ?thesis
    using w' loop v1 by auto
qed

lemma visit_frame:
  "visit fuel this (v, w) = Inr (v', w') \<Longrightarrow>
   v' = v \<and> (\<exists>out. w' = emit out w \<and>
     (\<forall>c. visit fuel this (v, w\<lparr>cout := c\<rparr>) = Inr (v, w\<lparr>cout := c @ out\<rparr>)))"
proof (induction fuel arbitrary: this v w v' w')
  case 0
  then show ?case
    by simp
next
  case (Suc fuel)
  from Suc.prems obtain object where object: "nodes w this = Some object"
    by (auto split: option.splits)
  have base: "v' = v \<and> (\<exists>out. w' = emit out w \<and>
      for_children (visit fuel) children (v\<lparr>depth := depth v + 1\<rparr>, w)
        = Inr (v\<lparr>depth := depth v + 1\<rparr>, w') \<and>
      (\<forall>c. Node_visit (visit fuel) children (v, w\<lparr>cout := c\<rparr>) = Inr (v, w\<lparr>cout := c @ out\<rparr>)))"
    if "Node_visit (visit fuel) children (v, w) = Inr (v', w')" for children v w v' w'
    by (rule Node_visit_frame [where call = "visit fuel", OF _ that]) (rule Suc.IH)
  show ?case
  proof (cases "class object")
    case Node
    with Suc.prems object have "Node_visit (visit fuel) (node_children object) (v, w) = Inr (v', w')"
      by simp
    from base [OF this] Node object show ?thesis
      by auto
  next
    case Root
    with Suc.prems object have "Node_visit (visit fuel) (node_children object) (v, w) = Inr (v', w')"
      by simp
    from base [OF this] Root object show ?thesis
      by auto
  next
    case (Storage f)
    let ?line = "report_line (depth v) f"
    from Suc.prems object Storage
    have "Node_visit (visit fuel) (node_children object) (v, emit ?line w) = Inr (v', w')"
      by (simp add: Storage_visit_line)
    from base [OF this] obtain out where v': "v' = v" and w': "w' = emit out (emit ?line w)"
      and again: "\<And>c. Node_visit (visit fuel) (node_children object) (v, (emit ?line w)\<lparr>cout := c\<rparr>)
         = Inr (v, (emit ?line w)\<lparr>cout := c @ out\<rparr>)"
      by blast
    have "visit (Suc fuel) this (v, w\<lparr>cout := c\<rparr>) = Inr (v, w\<lparr>cout := c @ ?line @ out\<rparr>)" for c
      using again [of "c @ ?line"] object Storage
      by (simp add: Storage_visit_line emit_cout cout_emit)
    with v' w' show ?thesis
      by (auto simp: emit_emit)
  next
    case (AtomicStorage f m)
    let ?line = "report_line (depth v) f"
    have free: "\<not> mutexes w m"
    proof
      assume "mutexes w m"
      with Suc.prems object AtomicStorage show False
        by (simp add: AtomicStorage_visit_held)
    qed
    from Suc.prems object AtomicStorage
    have "Node_visit (visit fuel) (node_children object) (v, emit ?line w) = Inr (v', w')"
      by (simp add: AtomicStorage_visit_line [OF free])
    from base [OF this] obtain out where v': "v' = v" and w': "w' = emit out (emit ?line w)"
      and again: "\<And>c. Node_visit (visit fuel) (node_children object) (v, (emit ?line w)\<lparr>cout := c\<rparr>)
         = Inr (v, (emit ?line w)\<lparr>cout := c @ out\<rparr>)"
      by blast
    have "visit (Suc fuel) this (v, w\<lparr>cout := c\<rparr>) = Inr (v, w\<lparr>cout := c @ ?line @ out\<rparr>)" for c
    proof -
      from free have "\<not> mutexes (w\<lparr>cout := c\<rparr>) m"
        by simp
      from AtomicStorage_visit_line [OF this] again [of "c @ ?line"] object AtomicStorage
      show ?thesis
        by (simp add: emit_cout cout_emit)
    qed
    with v' w' show ?thesis
      by (auto simp: emit_emit)
  qed
qed

subsection \<open>The frame of a report\<close>

lemma header_emit: "header w = emit ('' -!- R E P O R T -!-'' @ [CHR 0x0A]) w"
  by (simp add: header_def endl_def emit_emit)

lemma tail_emit: "tail w = emit ('' -@- _ _ _ _ _ _ -@-'' @ [CHR 0x0A, CHR 0x0A, CHR 0x0A]) w"
  by (simp add: tail_def endl_def emit_emit)

lemma for_children_expired:
  "\<forall>child \<in> set children. nodes (snd s) child = None \<Longrightarrow> for_children call children s = Inr s"
  by (induction children) simp_all

text \<open>The driver's order: append, then commit.\<close>

lemma hello_registry_built:
  "Node_append 0 1 created = Inr w \<Longrightarrow>
   AtomicStorage_commit 1 (FieldString ''hello'') w = Inr hello_registry"
  by (auto simp: Node_append_def AtomicStorage_commit_def created_def hello_registry_def
      lock_def unlock_def fun_upd_twist)

lemma hello_registry_report:
  "Root_visit 2 0 hello_registry =
    Inr (emit ('' -!- R E P O R T -!-'' @ [CHR 0x0A] @
               '' - hello'' @ [CHR 0x0A] @
               '' -@- _ _ _ _ _ _ -@-'' @ [CHR 0x0A, CHR 0x0A, CHR 0x0A]) hello_registry)"
  by (simp add: Root_visit_def hello_registry_def numeral_2_eq_2 header_emit tail_emit
      AtomicStorage_visit_line Node_visit_def nodes_emit mutexes_emit emit_emit report_line_def
      indent_def)

subsection \<open>The first report of the driver\<close>

lemma driver_live_tree: "live_tree (nodes driver) driver_tree"
  by (simp add: driver_def driver_tree_def)

lemma driver_unlocked: "unlocked driver"
  by (simp add: driver_def unlocked_def)

lemma driver_height: "height driver_tree = 3"
  by (simp add: driver_tree_def)

lemma driver_visit:
  "visit 3 0 (v, driver) = Inr (v, emit (render (depth v) driver_tree) driver)"
  using visit_live_tree [OF driver_live_tree driver_unlocked, of 3 v]
  by (simp add: driver_height) (simp add: driver_tree_def)

lemma driver_Node_visit:
  "Node_visit (visit 2) [1] (v, driver) = Inr (v, emit (render (depth v) driver_tree) driver)"
  using driver_visit [of v] by (simp add: numeral_3_eq_3 numeral_2_eq_2 driver_def)

lemma driver_text: "render 0 driver_tree = '' - hello'' @ [CHR 0x0A] @ ''   - 2'' @ [CHR 0x0A]"
  by (simp add: driver_tree_def report_line_def indent_def decimal.simps digit_def)

lemma driver_report:
  "Root_visit 3 0 driver =
    Inr (emit ('' -!- R E P O R T -!-'' @ [CHR 0x0A] @
               '' - hello'' @ [CHR 0x0A] @
               ''   - 2'' @ [CHR 0x0A] @
               '' -@- _ _ _ _ _ _ -@-'' @ [CHR 0x0A, CHR 0x0A, CHR 0x0A]) driver)"
proof -
  have "nodes driver 0 = Some \<lparr>class = Root, node_children = [1]\<rparr>"
    by (simp add: driver_def)
  moreover have "nodes (header driver) = nodes driver" "mutexes (header driver) = mutexes driver"
    by (simp_all add: header_emit nodes_emit mutexes_emit)
  then have "visit 3 0 (\<lparr>depth = 0\<rparr>, header driver)
      = Inr (\<lparr>depth = 0\<rparr>, emit (render 0 driver_tree) (header driver))"
    using visit_live_tree [of "header driver" driver_tree 3 "\<lparr>depth = 0\<rparr>"]
      driver_live_tree driver_unlocked
    by (simp add: driver_height unlocked_def) (simp add: driver_tree_def)
  ultimately show ?thesis
    by (simp add: Root_visit_def driver_text header_emit tail_emit emit_emit)
qed

subsection \<open>Commit\<close>

lemma unlock_after_lock: "\<not> mutexes w m \<Longrightarrow> (mutexes w)(m := False) = mutexes w"
  by (simp add: fun_upd_idem)

lemma AtomicStorage_commit_free:
  assumes "nodes w this = Some object" and "class object = AtomicStorage f m"
    and "\<not> mutexes w m"
  shows "AtomicStorage_commit this newValue w =
    Inr (w\<lparr>nodes := (nodes w)(this \<mapsto> object\<lparr>class := AtomicStorage newValue m\<rparr>)\<rparr>)"
  using assms by (simp add: AtomicStorage_commit_def lock_def unlock_def unlock_after_lock)

subsection \<open>Expired references\<close>

lemma for_children_append:
  "for_children call (xs @ ys) s =
     (case for_children call xs s of Inl e \<Rightarrow> Inl e | Inr s' \<Rightarrow> for_children call ys s')"
  by (induction xs arbitrary: s) (simp_all split: option.splits sum.splits)

lemma for_children_nodes:
  assumes "for_children (visit fuel) children (v, w) = Inr (v', w')"
  shows "nodes w' = nodes w"
proof -
  have "v' = v \<and> (\<exists>out. w' = emit out w \<and>
      (\<forall>c. for_children (visit fuel) children (v, w\<lparr>cout := c\<rparr>) = Inr (v, w\<lparr>cout := c @ out\<rparr>)))"
    by (rule for_children_frame [where call = "visit fuel", OF _ assms]) (rule visit_frame)
  then show ?thesis
    by (auto simp: nodes_emit)
qed

lemma for_children_skip:
  assumes "nodes w child = None"
  shows "for_children (visit fuel) (before @ child # after) (v, w)
    = for_children (visit fuel) (before @ after) (v, w)"
proof (cases "for_children (visit fuel) before (v, w)")
  case (Inl e)
  then show ?thesis
    by (simp add: for_children_append)
next
  case (Inr s)
  obtain v' w' where s: "s = (v', w')"
    by (cases s)
  from for_children_nodes [OF Inr [unfolded s]] assms have "nodes w' child = None"
    by simp
  with Inr s show ?thesis
    by (simp add: for_children_append)
qed

subsection \<open>Trees of live references\<close>

lemma height_le_iff:
  "foldr (\<lambda>t m. max (height t) m) ts 0 \<le> n \<longleftrightarrow> (\<forall>t \<in> set ts. height t \<le> n)"
  by (induction ts) auto

lemma Root_visit_live_tree:
  assumes "live_tree (nodes w) t" and "cls t = Root" and "unlocked w" and "height t \<le> fuel"
  shows "Root_visit fuel (label t) w = Inr (tail (emit (render 0 t) (header w)))"
proof -
  from assms(1) have "live_tree (nodes (header w)) t"
    by (simp add: header_emit nodes_emit)
  moreover from assms(3) have "unlocked (header w)"
    by (simp add: header_emit unlocked_emit)
  ultimately have "visit fuel (label t) (\<lparr>depth = 0\<rparr>, header w)
      = Inr (\<lparr>depth = 0\<rparr>, emit (render 0 t) (header w))"
    using visit_live_tree [of "header w" t fuel "\<lparr>depth = 0\<rparr>"] assms(4) by simp
  moreover from assms(1,2) obtain object where "nodes w (label t) = Some object"
    and "class object = Root"
    by (cases t) (auto split: option.splits)
  ultimately show ?thesis
    by (simp add: Root_visit_def)
qed

lemma driver_tree_root: "cls driver_tree = Root" "label driver_tree = 0"
  by (simp_all add: driver_tree_def)

lemma label_prune: "label (prune c t) = label t"
  by (cases t) simp

lemma cls_prune: "cls (prune c t) = cls t"
  by (cases t) simp

lemma height_prune: "height (prune c t) \<le> height t"
proof (induction t)
  case (Tree a k ts)
  have "\<forall>t' \<in> set (filter (\<lambda>t. label t \<noteq> c) (map (prune c) ts)).
      height t' \<le> foldr (\<lambda>t m. max (height t) m) ts 0"
  proof
    fix t'
    assume "t' \<in> set (filter (\<lambda>t. label t \<noteq> c) (map (prune c) ts))"
    then obtain t where t: "t \<in> set ts" and t': "t' = prune c t"
      by auto
    from Tree.IH [OF t] t' have "height t' \<le> height t"
      by simp
    also from t have "height t \<le> foldr (\<lambda>t m. max (height t) m) ts 0"
      by (rule height_subtree)
    finally show "height t' \<le> foldr (\<lambda>t m. max (height t) m) ts 0" .
  qed
  then show ?case
    by (simp add: height_le_iff)
qed

lemma live_tree_prune:
  "live_tree ns t \<Longrightarrow> label t \<noteq> c \<Longrightarrow> live_tree (ns(c := None)) (prune c t)"
proof (induction t)
  case (Tree a k ts)
  define ns' where "ns' = ns(c := None)"
  from Tree.prems obtain object where object: "ns a = Some object" and k: "class object = k"
    and ts: "map label ts = filter (\<lambda>x. ns x \<noteq> None) (node_children object)"
    and live: "\<forall>t \<in> set ts. live_tree ns t" and a: "a \<noteq> c"
    by (auto split: option.splits)
  let ?ts = "filter (\<lambda>t. label t \<noteq> c) (map (prune c) ts)"
  have "map label ?ts = filter (\<lambda>x. x \<noteq> c) (map label ts)"
    by (simp add: filter_map comp_def label_prune)
  also have "\<dots> = filter (\<lambda>x. ns' x \<noteq> None) (node_children object)"
    by (simp add: ts ns'_def) (rule filter_cong, auto)
  finally have labels: "map label ?ts = filter (\<lambda>x. ns' x \<noteq> None) (node_children object)" .
  have all: "\<forall>t' \<in> set ?ts. live_tree ns' t'"
  proof
    fix t'
    assume "t' \<in> set ?ts"
    then obtain t where t: "t \<in> set ts" and t': "t' = prune c t" and "label t' \<noteq> c"
      by auto
    then have "label t \<noteq> c"
      by (simp add: label_prune)
    moreover from live t have "live_tree ns t"
      by blast
    ultimately show "live_tree ns' t'"
      unfolding t' ns'_def by (intro Tree.IH [OF t])
  qed
  from object a have "ns' a = Some object"
    by (simp add: ns'_def)
  with k labels all have "live_tree ns' (prune c (Tree a k ts))"
    by simp
  then show ?case
    by (simp only: ns'_def)
qed

lemma labels_prune: "label t \<noteq> c \<Longrightarrow> c \<notin> set (labels (prune c t))"
proof (induction t)
  case (Tree a k ts)
  have "c \<notin> set (labels t')" if "t' \<in> set (filter (\<lambda>t. label t \<noteq> c) (map (prune c) ts))" for t'
  proof -
    from that obtain t where t: "t \<in> set ts" and t': "t' = prune c t" and "label t' \<noteq> c"
      by auto
    then have "label t \<noteq> c"
      by (simp add: label_prune)
    with Tree.IH [OF t] t' show ?thesis
      by simp
  qed
  with Tree.prems show ?case
    by auto
qed

subsection \<open>The lines of a tree and their depths\<close>

lemma concat_map_cong_set: "(\<And>x. x \<in> set xs \<Longrightarrow> f x = g x) \<Longrightarrow> concat (map f xs) = concat (map g xs)"
  by (induction xs) simp_all

lemma concat_map_concat:
  "concat (map g (concat xss)) = concat (map (\<lambda>xs. concat (map g xs)) xss)"
  by (induction xss) simp_all

lemma render_rendered:
  "render (of_nat e) t = concat (map (\<lambda>(a, e', f). report_line (of_nat e') f) (rendered e t))"
proof (induction t arbitrary: e)
  case (Tree a k ts)
  have "concat (map (render (of_nat e + 1)) ts)
      = concat (map (\<lambda>t. concat (map (\<lambda>(a, e', f). report_line (of_nat e') f) (rendered (Suc e) t))) ts)"
    using Tree.IH [of _ "Suc e"] by (intro concat_map_cong_set) (simp add: add.commute)
  then show ?case
    by (cases k) (simp_all add: concat_map_concat comp_def)
qed

lemma rendered_level:
  "(a, e', f) \<in> set (rendered e t) \<Longrightarrow> e \<le> e' \<and> e' < e + height t"
proof (induction t arbitrary: e)
  case (Tree b k ts)
  from Tree.prems consider "(a, e', f) \<in> set (own_entry b e k)"
    | t where "t \<in> set ts" "(a, e', f) \<in> set (rendered (Suc e) t)"
    by auto
  then show ?case
  proof cases
    case 1
    then show ?thesis
      by (cases k) simp_all
  next
    case 2
    from Tree.IH [OF 2] have "Suc e \<le> e'" "e' < Suc e + height t"
      by simp_all
    moreover from 2(1) have "height t \<le> foldr (\<lambda>t m. max (height t) m) ts 0"
      by (rule height_subtree)
    ultimately show ?thesis
      by simp
  qed
qed

lemma rendered_below_Root:
  "cls t = Root \<Longrightarrow> (a, e', f) \<in> set (rendered e t) \<Longrightarrow> Suc e \<le> e'"
proof (cases t)
  case (Tree b k ts)
  assume "cls t = Root" and "(a, e', f) \<in> set (rendered e t)"
  with Tree obtain t' where "t' \<in> set ts" "(a, e', f) \<in> set (rendered (Suc e) t')"
    by auto
  then show ?thesis
    using rendered_level by blast
qed

lemma unat_of_nat_64: "e < 2 ^ 64 \<Longrightarrow> unat (of_nat e :: 64 word) = e"
  by (simp add: unat_of_nat)

lemma own_line: "suffix (Field_visit f (prefix v w)) = emit (report_line (depth v) f) w"
  by (simp add: suffix_def Field_visit_def prefix_emit emit_emit report_line_def)

lemma foldl_own_line:
  "foldl (\<lambda>w (a, e, f). suffix (Field_visit f (prefix \<lparr>depth = of_nat e\<rparr> w))) w xs
     = emit (concat (map (\<lambda>(a, e, f). report_line (of_nat e) f) xs)) w"
  by (induction xs arbitrary: w) (auto simp: own_line emit_Nil emit_emit)

lemma driver_rendered:
  "rendered 0 driver_tree = [(1, 1, FieldString ''hello''), (2, 2, FieldSize 2)]"
  by (simp add: driver_tree_def)

subsection \<open>The nodes of a tree are the reachable ones\<close>

lemma reach_trans: "reach ns a b \<Longrightarrow> reach ns r a \<Longrightarrow> reach ns r b"
  by (induction rule: reach.induct) (auto intro: reach.child)

lemma live_tree_label: "live_tree ns t \<Longrightarrow> ns (label t) \<noteq> None"
  by (cases t) (auto split: option.splits)

lemma label_in_labels: "label t \<in> set (labels t)"
  by (cases t) simp

lemma labels_reach: "live_tree ns t \<Longrightarrow> a \<in> set (labels t) \<Longrightarrow> reach ns (label t) a"
proof (induction t)
  case (Tree b k ts)
  from Tree.prems(1) obtain object where object: "ns b = Some object"
    and ts: "map label ts = filter (\<lambda>c. ns c \<noteq> None) (node_children object)"
    and live: "\<forall>t \<in> set ts. live_tree ns t"
    by (auto split: option.splits)
  from object have top: "reach ns b b"
    by (simp add: reach.start)
  show ?case
  proof (cases "a = b")
    case True
    with top show ?thesis
      by simp
  next
    case False
    with Tree.prems(2) obtain t where t: "t \<in> set ts" and a: "a \<in> set (labels t)"
      by auto
    from t have "label t \<in> set (map label ts)"
      by simp
    with ts have "label t \<in> set (node_children object)" "ns (label t) \<noteq> None"
      by simp_all
    with top object have "reach ns b (label t)"
      by (auto intro: reach.child)
    moreover from Tree.IH [OF t] live t a have "reach ns (label t) a"
      by simp
    ultimately show ?thesis
      by (simp add: reach_trans)
  qed
qed

lemma labels_closed:
  "live_tree ns t \<Longrightarrow> a \<in> set (labels t) \<Longrightarrow> ns a = Some object \<Longrightarrow>
   c \<in> set (node_children object) \<Longrightarrow> ns c \<noteq> None \<Longrightarrow> c \<in> set (labels t)"
proof (induction t)
  case (Tree b k ts)
  from Tree.prems(1) obtain top where top: "ns b = Some top"
    and ts: "map label ts = filter (\<lambda>c. ns c \<noteq> None) (node_children top)"
    and live: "\<forall>t \<in> set ts. live_tree ns t"
    by (auto split: option.splits)
  show ?case
  proof (cases "a = b")
    case True
    with Tree.prems top have "c \<in> set (filter (\<lambda>c. ns c \<noteq> None) (node_children top))"
      by simp
    with ts have "c \<in> set (map label ts)"
      by simp
    then obtain t where "t \<in> set ts" "c = label t"
      by auto
    then show ?thesis
      using label_in_labels [of t] by auto
  next
    case False
    with Tree.prems(2) obtain t where t: "t \<in> set ts" and a: "a \<in> set (labels t)"
      by auto
    from Tree.IH [OF t _ a Tree.prems(3-5)] live t have "c \<in> set (labels t)"
      by simp
    with t show ?thesis
      by auto
  qed
qed

lemma reach_labels: "reach ns r a \<Longrightarrow> live_tree ns t \<Longrightarrow> label t = r \<Longrightarrow> a \<in> set (labels t)"
proof (induction rule: reach.induct)
  case start
  then show ?case
    using label_in_labels [of t] by simp
next
  case (child a object c)
  then show ?case
    using labels_closed [of ns t a object c] by simp
qed

lemma labels_are_reachable:
  "live_tree ns t \<Longrightarrow> set (labels t) = {a. reach ns (label t) a}"
  using labels_reach [of ns t] reach_labels [of ns "label t" _ t] by auto

subsection \<open>The tree after an append\<close>

lemma label_graft: "label (graft p tc t) = label t"
  by (cases t) simp

lemma cls_graft: "cls (graft p tc t) = cls t"
  by (cases t) simp

lemma live_tree_other:
  "live_tree ns t \<Longrightarrow> p \<notin> set (labels t) \<Longrightarrow> ns p \<noteq> None \<Longrightarrow> live_tree (ns(p \<mapsto> object)) t"
proof (induction t)
  case (Tree a k ts)
  define ns' where "ns' = ns(p \<mapsto> object)"
  from Tree.prems obtain top where top: "ns a = Some top" and k: "class top = k"
    and ts: "map label ts = filter (\<lambda>c. ns c \<noteq> None) (node_children top)"
    and live: "\<forall>t \<in> set ts. live_tree ns t" and a: "a \<noteq> p"
    by (auto split: option.splits)
  from Tree.prems(3)
  have same: "filter (\<lambda>c. ns' c \<noteq> None) (node_children top)
      = filter (\<lambda>c. ns c \<noteq> None) (node_children top)"
    by (intro filter_cong) (simp_all add: ns'_def)
  have all: "\<forall>t \<in> set ts. live_tree ns' t"
  proof
    fix t
    assume t: "t \<in> set ts"
    with Tree.prems(2) have "p \<notin> set (labels t)"
      by auto
    moreover from live t have "live_tree ns t"
      by blast
    ultimately show "live_tree ns' t"
      unfolding ns'_def using Tree.prems(3) by (intro Tree.IH [OF t])
  qed
  from top a have "ns' a = Some top"
    by (simp add: ns'_def)
  with k ts all same have "live_tree ns' (Tree a k ts)"
    by simp
  then show ?case
    by (simp only: ns'_def)
qed

lemma live_tree_graft:
  assumes "live_tree ns tc" and "ns p = Some object" and "p \<notin> set (labels tc)"
  shows "live_tree ns t \<Longrightarrow>
    live_tree (ns(p \<mapsto> object\<lparr>node_children := node_children object @ [label tc]\<rparr>)) (graft p tc t)"
proof (induction t)
  case (Tree a k ts)
  define ns' where "ns' = ns(p \<mapsto> object\<lparr>node_children := node_children object @ [label tc]\<rparr>)"
  from Tree.prems obtain top where top: "ns a = Some top" and k: "class top = k"
    and ts: "map label ts = filter (\<lambda>c. ns c \<noteq> None) (node_children top)"
    and live: "\<forall>t \<in> set ts. live_tree ns t"
    by (auto split: option.splits)
  from assms(2)
  have same: "filter (\<lambda>c. ns' c \<noteq> None) (node_children top)
      = filter (\<lambda>c. ns c \<noteq> None) (node_children top)"
    by (intro filter_cong) (simp_all add: ns'_def)
  have tc: "live_tree ns' tc"
    unfolding ns'_def using assms by (intro live_tree_other) simp_all
  have all: "\<forall>t \<in> set ts. live_tree ns' (graft p tc t)"
  proof
    fix t
    assume t: "t \<in> set ts"
    with live have "live_tree ns t"
      by blast
    then show "live_tree ns' (graft p tc t)"
      unfolding ns'_def by (rule Tree.IH [OF t])
  qed
  have labels: "map label (map (graft p tc) ts) = map label ts"
    by (simp add: label_graft)
  have "live_tree ns' (graft p tc (Tree a k ts))"
  proof (cases "a = p")
    case True
    with top assms(2) have "top = object"
      by simp
    with True have "ns' a = Some (top\<lparr>node_children := node_children top @ [label tc]\<rparr>)"
      by (simp add: ns'_def)
    moreover from tc have "ns' (label tc) \<noteq> None"
      by (rule live_tree_label)
    ultimately show ?thesis
      using True k ts all tc labels same by simp
  next
    case False
    with top have "ns' a = Some top"
      by (simp add: ns'_def)
    with False k ts all labels same show ?thesis
      by simp
  qed
  then show ?case
    by (simp only: ns'_def)
qed

subsection \<open>The tree after a commit\<close>

lemma label_recommit: "label (recommit a v t) = label t"
  by (cases t) simp

lemma cls_recommit_Root: "cls t = Root \<Longrightarrow> cls (recommit a v t) = Root"
  by (cases t) simp

lemma height_recommit: "height (recommit a v t) = height t"
proof (induction t)
  case (Tree b k ts)
  have "foldr (\<lambda>t m. max (height t) m) (map (recommit a v) ts) 0
      = foldr (\<lambda>t m. max (height t) m) ts 0"
    using Tree.IH by (induction ts) simp_all
  then show ?case
    by simp
qed

lemma rendered_recommit:
  "rendered e (recommit a v t)
     = map (\<lambda>(b, e', f). (b, e', if b = a then v else f)) (rendered e t)"
proof (induction t arbitrary: e)
  case (Tree b k ts)
  have "concat (map (rendered (Suc e) \<circ> recommit a v) ts)
      = concat (map (\<lambda>t. map (\<lambda>(b, e', f). (b, e', if b = a then v else f)) (rendered (Suc e) t)) ts)"
    using Tree.IH by (intro concat_map_cong_set) simp
  then show ?case
    by (cases k) (simp_all add: map_concat comp_def)
qed

lemma live_tree_recommit:
  assumes "ns a = Some object" and "class object = AtomicStorage f m"
  shows "live_tree ns t \<Longrightarrow>
    live_tree (ns(a \<mapsto> object\<lparr>class := AtomicStorage v m\<rparr>)) (recommit a v t)"
proof (induction t)
  case (Tree b k ts)
  define ns' where "ns' = ns(a \<mapsto> object\<lparr>class := AtomicStorage v m\<rparr>)"
  from Tree.prems obtain top where top: "ns b = Some top" and k: "class top = k"
    and ts: "map label ts = filter (\<lambda>c. ns c \<noteq> None) (node_children top)"
    and live: "\<forall>t \<in> set ts. live_tree ns t"
    by (auto split: option.splits)
  from assms(1)
  have same: "filter (\<lambda>c. ns' c \<noteq> None) (node_children top)
      = filter (\<lambda>c. ns c \<noteq> None) (node_children top)"
    by (intro filter_cong) (simp_all add: ns'_def)
  have all: "\<forall>t \<in> set ts. live_tree ns' (recommit a v t)"
  proof
    fix t
    assume t: "t \<in> set ts"
    with live have "live_tree ns t"
      by blast
    then show "live_tree ns' (recommit a v t)"
      unfolding ns'_def by (rule Tree.IH [OF t])
  qed
  have labels: "map label (map (recommit a v) ts) = map label ts"
    by (simp add: label_recommit)
  have "live_tree ns' (recommit a v (Tree b k ts))"
  proof (cases "b = a")
    case True
    with top assms have "top = object" and "k = AtomicStorage f m"
      using k by simp_all
    with True have "ns' b = Some (top\<lparr>class := AtomicStorage v m\<rparr>)"
      by (simp add: ns'_def)
    with True \<open>k = AtomicStorage f m\<close> ts all labels same show ?thesis
      by simp
  next
    case False
    with top have "ns' b = Some top"
      by (simp add: ns'_def)
    with False k ts all labels same show ?thesis
      by simp
  qed
  then show ?case
    by (simp only: ns'_def)
qed

subsection \<open>A node appended to itself\<close>

text \<open>
  \<open>append\<close> does not look for cycles. The visit of an object that is its own child does
  not return, whatever the bound on the nesting of the calls.
\<close>

lemma visit_nodes: "visit fuel this (v, w) = Inr (v', w') \<Longrightarrow> nodes w' = nodes w"
  using visit_frame [of fuel this v w v' w'] by (auto simp: nodes_emit)

lemma for_children_never:
  assumes never: "\<And>v w. nodes w a = Some object \<Longrightarrow> \<exists>e. visit fuel a (v, w) = Inl e"
  shows "a \<in> set children \<Longrightarrow> nodes w a = Some object \<Longrightarrow>
    \<exists>e. for_children (visit fuel) children (v, w) = Inl e"
proof (induction children arbitrary: v w)
  case Nil
  then show ?case
    by simp
next
  case (Cons child children)
  show ?case
  proof (cases "nodes w child")
    case None
    with Cons.prems have "a \<in> set children"
      by auto
    from Cons.IH [OF this Cons.prems(2)] None show ?thesis
      by simp
  next
    case (Some pointer)
    show ?thesis
    proof (cases "visit fuel child (v, w)")
      case (Inl e)
      with Some show ?thesis
        by simp
    next
      case (Inr s)
      obtain v' w' where s: "s = (v', w')"
        by (cases s)
      from Inr s never [OF Cons.prems(2), of v] have "child \<noteq> a"
        by auto
      with Cons.prems(1) have a: "a \<in> set children"
        by simp
      from Inr s have "nodes w' = nodes w"
        by (simp add: visit_nodes)
      with Cons.prems(2) have "nodes w' a = Some object"
        by simp
      from Cons.IH [OF a this, of v'] Some Inr s show ?thesis
        by simp
    qed
  qed
qed

lemma self_loop_never_returns:
  "nodes w a = Some object \<Longrightarrow> a \<in> set (node_children object) \<Longrightarrow>
   \<exists>e. visit fuel a (v, w) = Inl e"
proof (induction fuel arbitrary: v w)
  case 0
  then show ?case
    by simp
next
  case (Suc fuel)
  have loop: "\<exists>e. Node_visit (visit fuel) (node_children object) (v, w') = Inl e"
    if "nodes w' a = Some object" for v w'
  proof -
    have "\<exists>e. for_children (visit fuel) (node_children object) (v\<lparr>depth := depth v + 1\<rparr>, w') = Inl e"
      using Suc.prems(2) that
      by (intro for_children_never [where a = a and object = object]) (rule Suc.IH, simp_all)
    then show ?thesis
      by (auto simp: Node_visit_def)
  qed
  show ?case
  proof (cases "class object")
    case Node
    with Suc.prems(1) loop [of w v] show ?thesis
      by simp
  next
    case Root
    with Suc.prems(1) loop [of w v] show ?thesis
      by simp
  next
    case (Storage f)
    with Suc.prems(1) loop [of "emit (report_line (depth v) f) w" v] show ?thesis
      by (simp add: Storage_visit_line nodes_emit)
  next
    case (AtomicStorage f m)
    show ?thesis
    proof (cases "mutexes w m")
      case True
      with Suc.prems(1) AtomicStorage show ?thesis
        by (simp add: AtomicStorage_visit_held)
    next
      case False
      with Suc.prems(1) AtomicStorage loop [of "emit (report_line (depth v) f) w" v] show ?thesis
        by (simp add: AtomicStorage_visit_line nodes_emit)
    qed
  qed
qed

section \<open>The claims\<close>

subsection \<open>C1: the report of one storage node\<close>

text \<open>
  C1 says that the report of a root with one \<open>AtomicStorage<string>\<close> child committed to
  \<open>"hello"\<close>, without children of its own, has the one body line \<open>" -  hello"\<close>, with two
  spaces after the dash. \<open>Visitor::prefix\<close> writes the marker \<open>" - "\<close> and \<open>Field::visit\<close>
  the content right after it, so the line has one space there: on the registry of the
  scenario the report is not the one of the claim.
\<close>

theorem Root_visit_one_hello_two_spaces:
  "Root_visit 2 0 hello_registry \<noteq>
    Inr (emit ('' -!- R E P O R T -!-'' @ [CHR 0x0A] @
               '' -  hello'' @ [CHR 0x0A] @
               '' -@- _ _ _ _ _ _ -@-'' @ [CHR 0x0A, CHR 0x0A, CHR 0x0A]) hello_registry)"
  by (simp add: hello_registry_report) (simp add: emit_def hello_registry_def)

text \<open>
  C1, amended: for a root whose child list is one \<open>AtomicStorage<string>\<close> holding
  \<open>"hello"\<close> with an empty child list, and whose mutex is free, \<open>Root::visit\<close> returns and
  writes the header, the one body line \<open>" - hello"\<close> (the marker \<open>" - "\<close>, then the value)
  and the footer.
\<close>

theorem Root_visit_one_hello:
  assumes "nodes w this = Some \<lparr>class = Root, node_children = [metric]\<rparr>"
    and "nodes w metric =
      Some \<lparr>class = AtomicStorage (FieldString ''hello'') mutex, node_children = []\<rparr>"
    and "\<not> mutexes w mutex"
  shows "Root_visit (Suc (Suc fuel)) this w =
    Inr (emit ('' -!- R E P O R T -!-'' @ [CHR 0x0A] @
               '' - hello'' @ [CHR 0x0A] @
               '' -@- _ _ _ _ _ _ -@-'' @ [CHR 0x0A, CHR 0x0A, CHR 0x0A]) w)"
proof -
  let ?h = "emit ('' -!- R E P O R T -!-'' @ [CHR 0x0A]) w"
  from assms(3) have free: "\<not> mutexes ?h mutex"
    by (simp add: mutexes_emit)
  have "visit (Suc fuel) metric (\<lparr>depth = 1\<rparr>, ?h)
      = Inr (\<lparr>depth = 1\<rparr>, emit (report_line 1 (FieldString ''hello'')) ?h)"
    using assms(2)
      AtomicStorage_visit_line [OF free, of "visit fuel" "FieldString ''hello''" "[]"
        "\<lparr>depth = 1\<rparr>"]
    by (simp add: nodes_emit Node_visit_def)
  then have "visit (Suc (Suc fuel)) this (\<lparr>depth = 0\<rparr>, ?h)
      = Inr (\<lparr>depth = 0\<rparr>, emit (report_line 1 (FieldString ''hello'')) ?h)"
    using assms(1,2) by (simp add: nodes_emit Node_visit_def)
  then show ?thesis
    using assms(1)
    by (simp add: Root_visit_def header_emit tail_emit emit_emit report_line_def indent_def)
qed

theorem Root_visit_one_hello_witness:
  "Root_visit 2 0 hello_registry =
    Inr (emit ('' -!- R E P O R T -!-'' @ [CHR 0x0A] @
               '' - hello'' @ [CHR 0x0A] @
               '' -@- _ _ _ _ _ _ -@-'' @ [CHR 0x0A, CHR 0x0A, CHR 0x0A]) hello_registry)"
  using Root_visit_one_hello [of hello_registry 0 1 0 0]
  by (simp add: hello_registry_def numeral_2_eq_2)

subsection \<open>C2: trim\<close>

text \<open>
  C2 says that every call of \<open>Node::trim\<close> aborts, in every build configuration. The body
  is an \<open>assert\<close>, and a build with \<open>NDEBUG\<close> defined compiles it to nothing: there the
  call returns.
\<close>

theorem trim_NDEBUG_returns: "trim True created \<noteq> Inl AssertionFailed"
  by (simp add: trim_def c_assert_def)

text \<open>
  C2, amended: in a build without \<open>NDEBUG\<close> every call of \<open>Node::trim\<close> aborts on its
  assertion; in a build with \<open>NDEBUG\<close> the call returns and changes nothing.
\<close>

theorem trim_aborts_unless_NDEBUG:
  "trim False w = Inl AssertionFailed \<and> trim True w = Inr w"
  by (simp add: trim_def c_assert_def)

theorem trim_aborts_unless_NDEBUG_witness:
  "trim False created = Inl AssertionFailed \<and> trim True created = Inr created"
  using trim_aborts_unless_NDEBUG [of created] by simp

subsection \<open>C10: the report of a root without live children\<close>

text \<open>
  C10: for a root whose child list is empty, or holds expired references only,
  \<open>Root::visit\<close> returns and writes the header line, the footer line and two empty lines,
  and nothing between the header and the footer.
\<close>

theorem Root_visit_no_live_child:
  assumes "nodes w this = Some object" and "class object = Root"
    and "\<forall>child \<in> set (node_children object). nodes w child = None"
  shows "Root_visit (Suc fuel) this w =
    Inr (emit ('' -!- R E P O R T -!-'' @ [CHR 0x0A] @
               '' -@- _ _ _ _ _ _ -@-'' @ [CHR 0x0A, CHR 0x0A, CHR 0x0A]) w)"
proof -
  let ?h = "emit ('' -!- R E P O R T -!-'' @ [CHR 0x0A]) w"
  from assms(3)
  have "for_children (visit fuel) (node_children object) (\<lparr>depth = 1\<rparr>, ?h)
      = Inr (\<lparr>depth = 1\<rparr>, ?h)"
    by (intro for_children_expired) (simp add: nodes_emit)
  then have "visit (Suc fuel) this (\<lparr>depth = 0\<rparr>, ?h) = Inr (\<lparr>depth = 0\<rparr>, ?h)"
    using assms(1,2) by (simp add: nodes_emit Node_visit_def)
  then show ?thesis
    using assms(1,2) by (simp add: Root_visit_def header_emit tail_emit emit_emit)
qed

theorem Root_visit_no_live_child_witness:
  "Root_visit 1 0 (release 1 hello_registry) =
    Inr (emit ('' -!- R E P O R T -!-'' @ [CHR 0x0A] @
               '' -@- _ _ _ _ _ _ -@-'' @ [CHR 0x0A, CHR 0x0A, CHR 0x0A])
          (release 1 hello_registry))
   \<and> Root_visit 1 0 created =
    Inr (emit ('' -!- R E P O R T -!-'' @ [CHR 0x0A] @
               '' -@- _ _ _ _ _ _ -@-'' @ [CHR 0x0A, CHR 0x0A, CHR 0x0A]) created)"
  using
    Root_visit_no_live_child [of "release 1 hello_registry" 0
      "\<lparr>class = Root, node_children = [1]\<rparr>" 0]
    Root_visit_no_live_child [of created 0 "\<lparr>class = Root, node_children = []\<rparr>" 0]
  by (simp add: hello_registry_def created_def release_def)

subsection \<open>C8: two visits in a row\<close>

text \<open>
  C8: \<open>Root::visit\<close> reads the registry and appends to the stream. When a call returns,
  the objects and the mutexes are as before, the stream has grown by the report, and a
  second call right after it returns as well and appends the same report, byte for byte.
\<close>

theorem Root_visit_twice:
  assumes "Root_visit fuel this w = Inr w'"
  shows "\<exists>report. w' = emit report w \<and> Root_visit fuel this w' = Inr (emit report w')"
proof -
  let ?h = "'' -!- R E P O R T -!-'' @ [CHR 0x0A]"
  let ?t = "'' -@- _ _ _ _ _ _ -@-'' @ [CHR 0x0A, CHR 0x0A, CHR 0x0A]"
  from assms obtain object where object: "nodes w this = Some object" "class object = Root"
    by (auto simp: Root_visit_def split: option.splits if_splits)
  with assms obtain v1 w1 where walk: "visit fuel this (\<lparr>depth = 0\<rparr>, emit ?h w) = Inr (v1, w1)"
    and w': "w' = emit ?t w1"
    by (auto simp: Root_visit_def header_emit tail_emit split: sum.splits)
  from visit_frame [OF walk] obtain out where w1: "w1 = emit out (emit ?h w)"
    and again: "\<And>c. visit fuel this (\<lparr>depth = 0\<rparr>, (emit ?h w)\<lparr>cout := c\<rparr>)
       = Inr (\<lparr>depth = 0\<rparr>, (emit ?h w)\<lparr>cout := c @ out\<rparr>)"
    by blast
  let ?report = "?h @ out @ ?t"
  have first: "w' = emit ?report w"
    using w' w1 by (simp add: emit_emit)
  have "emit ?h w' = (emit ?h w)\<lparr>cout := cout w' @ ?h\<rparr>"
    by (simp add: first emit_def)
  with again [of "cout w' @ ?h"]
  have "visit fuel this (\<lparr>depth = 0\<rparr>, emit ?h w') = Inr (\<lparr>depth = 0\<rparr>, emit (?h @ out) w')"
    by (simp add: first emit_def)
  moreover have "nodes w' this = Some object"
    using object first by (simp add: nodes_emit)
  ultimately have "Root_visit fuel this w' = Inr (emit ?report w')"
    using object by (simp add: Root_visit_def header_emit tail_emit emit_emit)
  with first show ?thesis
    by blast
qed

theorem Root_visit_twice_witness:
  "\<exists>report. Root_visit 3 0 driver = Inr (emit report driver) \<and>
     Root_visit 3 0 (emit report driver) = Inr (emit report (emit report driver))"
  using Root_visit_twice [of 3 0 driver] driver_report
  by auto

subsection \<open>C9: the depth of the visitor\<close>

text \<open>
  C9: a call of \<open>Node::visit(visitor, children)\<close> that returns leaves the depth of the
  visitor as it found it, for every child list and every depth at the start: the loop
  over the children starts and ends one above it. The same holds for the virtual call
  \<open>visit(visitor)\<close> on every object.
\<close>

theorem visit_restores_depth:
  "(Node_visit (visit fuel) children (v, w) = Inr (v', w') \<longrightarrow>
      depth v' = depth v \<and>
      for_children (visit fuel) children (v\<lparr>depth := depth v + 1\<rparr>, w)
        = Inr (v\<lparr>depth := depth v + 1\<rparr>, w')) \<and>
   (visit fuel this (v, w) = Inr (v', w') \<longrightarrow> depth v' = depth v)"
proof (intro conjI impI)
  assume ret: "Node_visit (visit fuel) children (v, w) = Inr (v', w')"
  have "v' = v \<and> (\<exists>out. w' = emit out w \<and>
      for_children (visit fuel) children (v\<lparr>depth := depth v + 1\<rparr>, w)
        = Inr (v\<lparr>depth := depth v + 1\<rparr>, w') \<and>
      (\<forall>c. Node_visit (visit fuel) children (v, w\<lparr>cout := c\<rparr>) = Inr (v, w\<lparr>cout := c @ out\<rparr>)))"
    by (rule Node_visit_frame [where call = "visit fuel", OF _ ret]) (rule visit_frame)
  then show "depth v' = depth v"
    and "for_children (visit fuel) children (v\<lparr>depth := depth v + 1\<rparr>, w)
        = Inr (v\<lparr>depth := depth v + 1\<rparr>, w')"
    by auto
next
  assume "visit fuel this (v, w) = Inr (v', w')"
  from visit_frame [OF this] show "depth v' = depth v"
    by simp
qed

theorem visit_restores_depth_witness:
  "Node_visit (visit 2) [1] (\<lparr>depth = 7\<rparr>, driver)
     = Inr (\<lparr>depth = 7\<rparr>, emit (render 7 driver_tree) driver) \<and>
   for_children (visit 2) [1] (\<lparr>depth = 8\<rparr>, driver)
     = Inr (\<lparr>depth = 8\<rparr>, emit (render 7 driver_tree) driver) \<and>
   visit 3 0 (\<lparr>depth = 7\<rparr>, driver) = Inr (\<lparr>depth = 7\<rparr>, emit (render 7 driver_tree) driver)"
  using visit_restores_depth [of 2 "[1]" "\<lparr>depth = 7\<rparr>" driver "\<lparr>depth = 7\<rparr>"
      "emit (render 7 driver_tree) driver" 0]
    driver_Node_visit [of "\<lparr>depth = 7\<rparr>"] driver_visit [of "\<lparr>depth = 7\<rparr>"]
  by simp

subsection \<open>C6: a visit after a commit\<close>

text \<open>
  C6: for an \<open>AtomicStorage\<close> node whose mutex is free and every value, \<open>commit\<close>
  returns, and a visit of the node in the world it leaves writes the line of the committed
  value, at the depth of the visitor, before it goes on to the children of the node; for a
  node without children the visit returns with exactly that line written.
\<close>

theorem commit_then_visit:
  assumes "nodes w this = Some object" and "class object = AtomicStorage f mutex"
    and "\<not> mutexes w mutex"
  shows "\<exists>w'. AtomicStorage_commit this newValue w = Inr w' \<and>
    (\<forall>fuel v. visit (Suc fuel) this (v, w') =
       Node_visit (visit fuel) (node_children object)
         (v, emit (indent (depth v) @ '' - '' @ content_text newValue @ [CHR 0x0A]) w')) \<and>
    (node_children object = [] \<longrightarrow>
       (\<forall>fuel v. visit (Suc fuel) this (v, w') =
          Inr (v, emit (indent (depth v) @ '' - '' @ content_text newValue @ [CHR 0x0A]) w')))"
proof -
  let ?w = "w\<lparr>nodes := (nodes w)(this \<mapsto> object\<lparr>class := AtomicStorage newValue mutex\<rparr>)\<rparr>"
  have commit: "AtomicStorage_commit this newValue w = Inr ?w"
    using assms by (rule AtomicStorage_commit_free)
  from assms(3) have free: "\<not> mutexes ?w mutex"
    by simp
  have step: "visit (Suc fuel) this (v, ?w) =
      Node_visit (visit fuel) (node_children object)
        (v, emit (indent (depth v) @ '' - '' @ content_text newValue @ [CHR 0x0A]) ?w)" for fuel v
    using AtomicStorage_visit_line [OF free, of "visit fuel" newValue "node_children object" v]
    by (simp add: report_line_def)
  have "visit (Suc fuel) this (v, ?w) =
      Inr (v, emit (indent (depth v) @ '' - '' @ content_text newValue @ [CHR 0x0A]) ?w)"
    if "node_children object = []" for fuel v
    using step [of fuel v] that by (simp add: Node_visit_def)
  with commit step show ?thesis
    by blast
qed

theorem commit_then_visit_witness:
  "\<exists>w'. AtomicStorage_commit 1 (FieldString ''bye'') hello_registry = Inr w' \<and>
     (\<forall>fuel v. visit (Suc fuel) 1 (v, w') =
        Inr (v, emit (indent (depth v) @ '' - bye'' @ [CHR 0x0A]) w'))"
  using commit_then_visit [of hello_registry 1
      "\<lparr>class = AtomicStorage (FieldString ''hello'') 0, node_children = []\<rparr>"
      "FieldString ''hello''" 0 "FieldString ''bye''"]
  by (auto simp add: hello_registry_def simp del: visit.simps)

subsection \<open>C3: expired references\<close>

text \<open>
  C3: a child reference whose object is gone adds nothing to a traversal: for every child
  list with a reference to a released object in it, \<open>Node::visit\<close> does what it does on
  the list without that reference, be it a result or an error of the other children.
  In particular, when the registry unfolds to a tree from a root and an object other than
  the root is released, \<open>Root::visit\<close> returns and the report is the text of the tree
  without the subtrees at the released object, which has no line in it.
\<close>

theorem expired_child_is_skipped:
  "Node_visit (visit fuel) (before @ child # after) (v, release child w)
     = Node_visit (visit fuel) (before @ after) (v, release child w) \<and>
   (live_tree (nodes w) t \<and> cls t = Root \<and> label t \<noteq> child \<and> unlocked w \<and> height t \<le> fuel \<longrightarrow>
      Root_visit fuel (label t) (release child w)
        = Inr (tail (emit (render 0 (prune child t)) (header (release child w)))) \<and>
      child \<notin> set (labels (prune child t)))"
proof (intro conjI impI)
  have "nodes (release child w) child = None"
    by (simp add: release_def)
  then show "Node_visit (visit fuel) (before @ child # after) (v, release child w)
      = Node_visit (visit fuel) (before @ after) (v, release child w)"
    by (simp add: Node_visit_def for_children_skip)
next
  assume t: "live_tree (nodes w) t \<and> cls t = Root \<and> label t \<noteq> child \<and> unlocked w \<and> height t \<le> fuel"
  then have "live_tree (nodes (release child w)) (prune child t)"
    by (simp add: release_def live_tree_prune)
  moreover from t have "unlocked (release child w)"
    by (simp add: release_def unlocked_def)
  moreover from t have "height (prune child t) \<le> fuel"
    using height_prune [of child t] by simp
  ultimately show "Root_visit fuel (label t) (release child w)
      = Inr (tail (emit (render 0 (prune child t)) (header (release child w))))"
    using t Root_visit_live_tree [of "release child w" "prune child t" fuel]
    by (simp add: label_prune cls_prune)
  from t show "child \<notin> set (labels (prune child t))"
    by (simp add: labels_prune)
qed

theorem expired_child_is_skipped_witness:
  "Node_visit (visit 3) ([] @ 2 # []) (\<lparr>depth = 1\<rparr>, release 2 driver)
     = Node_visit (visit 3) ([] @ []) (\<lparr>depth = 1\<rparr>, release 2 driver) \<and>
   Root_visit 3 0 (release 2 driver)
     = Inr (emit ('' -!- R E P O R T -!-'' @ [CHR 0x0A] @
               '' - hello'' @ [CHR 0x0A] @
               '' -@- _ _ _ _ _ _ -@-'' @ [CHR 0x0A, CHR 0x0A, CHR 0x0A]) (release 2 driver)) \<and>
   2 \<notin> set (labels (prune 2 driver_tree))"
proof -
  have "live_tree (nodes driver) driver_tree \<and> cls driver_tree = Root \<and> label driver_tree \<noteq> 2 \<and>
      unlocked driver \<and> height driver_tree \<le> 3"
    by (simp add: driver_live_tree driver_unlocked driver_height driver_tree_root)
  with expired_child_is_skipped [of 3 "[]" 2 "[]" "\<lparr>depth = 1\<rparr>" driver driver_tree]
  have "Node_visit (visit 3) ([] @ 2 # []) (\<lparr>depth = 1\<rparr>, release 2 driver)
       = Node_visit (visit 3) ([] @ []) (\<lparr>depth = 1\<rparr>, release 2 driver) \<and>
     Root_visit 3 0 (release 2 driver)
       = Inr (tail (emit (render 0 (prune 2 driver_tree)) (header (release 2 driver)))) \<and>
     2 \<notin> set (labels (prune 2 driver_tree))"
    by (simp add: driver_tree_root)
  moreover have "render 0 (prune 2 driver_tree) = '' - hello'' @ [CHR 0x0A]"
    by (simp add: driver_tree_def report_line_def indent_def)
  ultimately show ?thesis
    by (simp add: header_emit tail_emit emit_emit)
qed

subsection \<open>C4: depth and indentation\<close>

text \<open>
  C4: when the registry unfolds to a tree from a root (of fewer than \<open>2 ^ 64\<close> levels, the
  range of the depth counter), \<open>Root::visit\<close> returns, and what it writes between header
  and footer is what \<open>prefix\<close>, \<open>Field::visit\<close> and \<open>suffix\<close> write for the rendered nodes
  in turn, each with the depth of the visitor equal to the number of edges from the root
  to the node. That number is at least 1, and the line so written is that number minus
  one indent units of two spaces, the marker, the value and a newline.
\<close>

theorem depth_is_edges_from_root:
  assumes "live_tree (nodes w) t" and "cls t = Root" and "unlocked w" and "height t \<le> fuel"
    and "height t \<le> 2 ^ 64"
  shows "Root_visit fuel (label t) w =
      Inr (tail (foldl (\<lambda>w (a, e, f). suffix (Field_visit f (prefix \<lparr>depth = of_nat e\<rparr> w)))
        (header w) (rendered 0 t))) \<and>
    (\<forall>(a, e, f) \<in> set (rendered 0 t). 1 \<le> e \<and>
       (\<forall>w'. suffix (Field_visit f (prefix \<lparr>depth = of_nat e\<rparr> w')) =
          emit (concat (replicate (e - 1) ''  '') @ '' - '' @ content_text f @ [CHR 0x0A]) w'))"
proof
  have "foldl (\<lambda>w (a, e, f). suffix (Field_visit f (prefix \<lparr>depth = of_nat e\<rparr> w)))
        (header w) (rendered 0 t)
      = emit (render 0 t) (header w)"
    using render_rendered [of 0 t] by (simp add: foldl_own_line)
  with Root_visit_live_tree [OF assms(1-4)]
  show "Root_visit fuel (label t) w =
      Inr (tail (foldl (\<lambda>w (a, e, f). suffix (Field_visit f (prefix \<lparr>depth = of_nat e\<rparr> w)))
        (header w) (rendered 0 t)))"
    by simp
next
  show "\<forall>(a, e, f) \<in> set (rendered 0 t). 1 \<le> e \<and>
       (\<forall>w'. suffix (Field_visit f (prefix \<lparr>depth = of_nat e\<rparr> w')) =
          emit (concat (replicate (e - 1) ''  '') @ '' - '' @ content_text f @ [CHR 0x0A]) w')"
  proof (intro ballI, clarify)
    fix a e f
    assume entry: "(a, e, f) \<in> set (rendered 0 t)"
    from rendered_below_Root [OF assms(2) entry] have low: "1 \<le> e"
      by simp
    from rendered_level [OF entry] assms(5) have "e < 2 ^ 64"
      by simp
    then have "unat (of_nat e :: 64 word) = e"
      by (rule unat_of_nat_64)
    then have "suffix (Field_visit f (prefix \<lparr>depth = of_nat e\<rparr> w')) =
        emit (concat (replicate (e - 1) ''  '') @ '' - '' @ content_text f @ [CHR 0x0A]) w'" for w'
      by (simp add: own_line report_line_def indent_def)
    with low show "1 \<le> e \<and>
       (\<forall>w'. suffix (Field_visit f (prefix \<lparr>depth = of_nat e\<rparr> w')) =
          emit (concat (replicate (e - 1) ''  '') @ '' - '' @ content_text f @ [CHR 0x0A]) w')"
      by simp
  qed
qed

theorem depth_is_edges_from_root_witness:
  "Root_visit 3 0 driver =
      Inr (tail (suffix (Field_visit (FieldSize 2) (prefix \<lparr>depth = 2\<rparr>
        (suffix (Field_visit (FieldString ''hello'') (prefix \<lparr>depth = 1\<rparr> (header driver)))))))) \<and>
   (\<forall>w'. suffix (Field_visit (FieldString ''hello'') (prefix \<lparr>depth = 1\<rparr> w')) =
      emit ('' - hello'' @ [CHR 0x0A]) w') \<and>
   (\<forall>w'. suffix (Field_visit (FieldSize 2) (prefix \<lparr>depth = 2\<rparr> w')) =
      emit (''   - 2'' @ [CHR 0x0A]) w')"
proof -
  have "height driver_tree \<le> (2 :: nat) ^ 64"
    by (simp add: driver_height)
  with depth_is_edges_from_root [of driver driver_tree 3] driver_live_tree driver_unlocked
  show ?thesis
    by (simp add: driver_tree_root driver_height driver_rendered decimal.simps digit_def)
qed

subsection \<open>C5: what a visit renders, and in which order\<close>

text \<open>
  C5: when the registry unfolds to a tree from a root, \<open>Root::visit\<close> returns and writes
  the text of that tree: every node in pre-order, the children of a node in the order of
  its child list, expired references left out. The nodes of the tree are exactly the
  objects reachable from the root through live references. The child list is in the order
  of the appends: after \<open>append\<close> of a live child to an object, the report is the text of
  the tree with the tree of the child as the last subtree wherever that object occurs.
\<close>

theorem visit_renders_reachable_in_append_order:
  assumes "live_tree (nodes w) t" and "cls t = Root" and "unlocked w" and "height t \<le> fuel"
  shows "Root_visit fuel (label t) w = Inr (tail (emit (render 0 t) (header w))) \<and>
    set (labels t) = {a. reach (nodes w) (label t) a} \<and>
    (\<forall>p object tc. nodes w p = Some object \<and> live_tree (nodes w) tc \<and> p \<notin> set (labels tc) \<and>
         height (graft p tc t) \<le> fuel \<longrightarrow>
       (\<exists>w'. Node_append p (label tc) w = Inr w' \<and>
          Root_visit fuel (label t) w' = Inr (tail (emit (render 0 (graft p tc t)) (header w')))))"
proof (intro conjI allI impI)
  show "Root_visit fuel (label t) w = Inr (tail (emit (render 0 t) (header w)))"
    using assms by (rule Root_visit_live_tree)
  show "set (labels t) = {a. reach (nodes w) (label t) a}"
    using assms(1) by (rule labels_are_reachable)
next
  fix p object tc
  assume new: "nodes w p = Some object \<and> live_tree (nodes w) tc \<and> p \<notin> set (labels tc) \<and>
      height (graft p tc t) \<le> fuel"
  let ?w = "w\<lparr>nodes := (nodes w)(p \<mapsto> object\<lparr>node_children := node_children object @ [label tc]\<rparr>)\<rparr>"
  from new have "Node_append p (label tc) w = Inr ?w"
    by (simp add: Node_append_def)
  moreover from new assms(1) have "live_tree (nodes ?w) (graft p tc t)"
    by (simp add: live_tree_graft)
  with assms(2,3) new have "Root_visit fuel (label (graft p tc t)) ?w
      = Inr (tail (emit (render 0 (graft p tc t)) (header ?w)))"
    by (intro Root_visit_live_tree) (simp_all add: cls_graft unlocked_def)
  ultimately show "\<exists>w'. Node_append p (label tc) w = Inr w' \<and>
      Root_visit fuel (label t) w' = Inr (tail (emit (render 0 (graft p tc t)) (header w')))"
    by (simp add: label_graft)
qed

theorem visit_renders_reachable_in_append_order_witness:
  "Root_visit 3 0 driver = Inr (tail (emit ('' - hello'' @ [CHR 0x0A] @ ''   - 2'' @ [CHR 0x0A])
      (header driver))) \<and>
   set [0, 1, 2] = {a. reach (nodes driver) 0 a} \<and>
   (\<exists>w'. Node_append 0 2 driver = Inr w' \<and>
      Root_visit 3 0 w' = Inr (tail (emit
        ('' - hello'' @ [CHR 0x0A] @ ''   - 2'' @ [CHR 0x0A] @ '' - 2'' @ [CHR 0x0A]) (header w'))))"
proof -
  let ?tc = "Tree 2 (AtomicStorage (FieldSize 2) 0) []"
  have "height driver_tree \<le> 3"
    by (simp add: driver_height)
  note all = visit_renders_reachable_in_append_order
    [OF driver_live_tree driver_tree_root(1) driver_unlocked this]
  have new: "nodes driver 0 = Some \<lparr>class = Root, node_children = [1]\<rparr> \<and>
      live_tree (nodes driver) ?tc \<and> 0 \<notin> set (labels ?tc) \<and>
      height (graft 0 ?tc driver_tree) \<le> 3"
    by (simp add: driver_def driver_tree_def)
  have grafted: "render 0 (graft 0 ?tc driver_tree)
      = '' - hello'' @ [CHR 0x0A] @ ''   - 2'' @ [CHR 0x0A] @ '' - 2'' @ [CHR 0x0A]"
    by (simp add: driver_tree_def report_line_def indent_def decimal.simps digit_def)
  from all have "Root_visit 3 0 driver = Inr (tail (emit (render 0 driver_tree) (header driver)))"
    by (simp add: driver_tree_root)
  moreover from all have "set (labels driver_tree) = {a. reach (nodes driver) 0 a}"
    by (simp add: driver_tree_root)
  moreover have "labels driver_tree = [0, 1, 2]"
    by (simp add: driver_tree_def)
  moreover from all new
  have "\<exists>w'. Node_append 0 (label ?tc) driver = Inr w' \<and>
      Root_visit 3 (label driver_tree) w'
        = Inr (tail (emit (render 0 (graft 0 ?tc driver_tree)) (header w')))"
    by blast
  ultimately show ?thesis
    by (simp add: driver_text grafted driver_tree_root)
qed

subsection \<open>C7: a commit changes the lines of one node\<close>

text \<open>
  C7: when the registry unfolds to a tree from a root and a value is committed to an
  \<open>AtomicStorage\<close> node, the commit returns, and the report of the next \<open>Root::visit\<close> is
  the report before the commit, line by line, but for the lines of the node committed to,
  which show the new value at the same depth.
\<close>

theorem recommit_changes_one_node:
  assumes "live_tree (nodes w) t" and "cls t = Root" and "unlocked w" and "height t \<le> fuel"
    and "nodes w a = Some object" and "class object = AtomicStorage f m"
  shows "\<exists>w'. AtomicStorage_commit a newValue w = Inr w' \<and>
    Root_visit fuel (label t) w =
      Inr (tail (emit (concat (map (\<lambda>(b, e, f). report_line (of_nat e) f) (rendered 0 t)))
        (header w))) \<and>
    Root_visit fuel (label t) w' =
      Inr (tail (emit (concat (map (\<lambda>(b, e, f). report_line (of_nat e) f)
        (map (\<lambda>(b, e, f). (b, e, if b = a then newValue else f)) (rendered 0 t))))
        (header w')))"
proof -
  let ?w = "w\<lparr>nodes := (nodes w)(a \<mapsto> object\<lparr>class := AtomicStorage newValue m\<rparr>)\<rparr>"
  from assms(3) have "\<not> mutexes w m"
    by (simp add: unlocked_def)
  with assms(5,6) have commit: "AtomicStorage_commit a newValue w = Inr ?w"
    by (rule AtomicStorage_commit_free)
  have before: "Root_visit fuel (label t) w =
      Inr (tail (emit (concat (map (\<lambda>(b, e, f). report_line (of_nat e) f) (rendered 0 t)))
        (header w)))"
    using Root_visit_live_tree [OF assms(1-4)] render_rendered [of 0 t] by simp
  have "live_tree (nodes ?w) (recommit a newValue t)"
    using assms(1,5,6) by (simp add: live_tree_recommit)
  moreover have "cls (recommit a newValue t) = Root"
    using assms(2) by (rule cls_recommit_Root)
  moreover from assms(3) have "unlocked ?w"
    by (simp add: unlocked_def)
  moreover from assms(4) have "height (recommit a newValue t) \<le> fuel"
    by (simp add: height_recommit)
  ultimately have "Root_visit fuel (label (recommit a newValue t)) ?w
      = Inr (tail (emit (render 0 (recommit a newValue t)) (header ?w)))"
    by (rule Root_visit_live_tree)
  then have "Root_visit fuel (label t) ?w =
      Inr (tail (emit (concat (map (\<lambda>(b, e, f). report_line (of_nat e) f)
        (map (\<lambda>(b, e, f). (b, e, if b = a then newValue else f)) (rendered 0 t))))
        (header ?w)))"
    using render_rendered [of 0 "recommit a newValue t"]
    by (simp add: label_recommit rendered_recommit)
  with commit before show ?thesis
    by blast
qed

theorem recommit_changes_one_node_witness:
  "\<exists>w'. AtomicStorage_commit 1 (FieldString ''bye'') driver = Inr w' \<and>
    Root_visit 3 0 driver =
      Inr (tail (emit ('' - hello'' @ [CHR 0x0A] @ ''   - 2'' @ [CHR 0x0A]) (header driver))) \<and>
    Root_visit 3 0 w' =
      Inr (tail (emit ('' - bye'' @ [CHR 0x0A] @ ''   - 2'' @ [CHR 0x0A]) (header w')))"
proof -
  have "height driver_tree \<le> 3"
    by (simp add: driver_height)
  moreover have "nodes driver 1
      = Some \<lparr>class = AtomicStorage (FieldString ''hello'') 0, node_children = [2]\<rparr>"
    by (simp add: driver_def)
  ultimately show ?thesis
    using recommit_changes_one_node [of driver driver_tree 3 1 _ "FieldString ''hello''" 0
        "FieldString ''bye''"] driver_live_tree driver_unlocked
    by (simp add: driver_tree_root driver_rendered report_line_def indent_def decimal.simps
        digit_def)
qed

end
